theory Spec2Isabelle
  imports Main "HOL-Library.Sublist" "HOL-Library.Multiset"
begin

section \<open>Strings\<close>

text \<open>
  A Python \<open>str\<close> is a sequence of Unicode code points, and \<open>len\<close> counts code points.
  The digest holds code points far beyond one byte (U+2022, U+1F4C8, U+1F680), so a
  string is a list of code points, each a natural number. \<open>py\<close> reads an ASCII literal.
\<close>

type_synonym codepoint = nat
type_synonym pystr = "codepoint list"

definition py :: "string \<Rightarrow> pystr" where
  "py s = map of_char s"

text \<open>
  \<open>str.isspace\<close> for one code point. \<open>str.strip()\<close> and the pattern \<open>\s\<close> of \<open>re\<close> (on a
  \<open>str\<close> pattern) both use this set: the ASCII separators 9-13 and 28-32, and the
  Unicode spaces U+0085, U+00A0, U+1680, U+2000-U+200A, U+2028, U+2029, U+202F, U+205F,
  U+3000.
\<close>

definition isspace :: "codepoint \<Rightarrow> bool" where
  "isspace c \<longleftrightarrow>
     (9 \<le> c \<and> c \<le> 13) \<or> (28 \<le> c \<and> c \<le> 32) \<or> c = 133 \<or> c = 160 \<or> c = 5760 \<or>
     (8192 \<le> c \<and> c \<le> 8202) \<or> c = 8232 \<or> c = 8233 \<or> c = 8239 \<or> c = 8287 \<or> c = 12288"

text \<open>\<open>text.strip()\<close>: leading and trailing whitespace removed.\<close>

definition strip :: "pystr \<Rightarrow> pystr" where
  "strip s = rev (dropWhile isspace (rev (dropWhile isspace s)))"

text \<open>\<open>re.sub(r'\s+', ' ', s)\<close>: every maximal run of whitespace becomes one space (32).\<close>

function collapse_ws :: "pystr \<Rightarrow> pystr" where
  "collapse_ws [] = []"
| "collapse_ws (c # cs) =
     (if isspace c then 32 # collapse_ws (dropWhile isspace cs) else c # collapse_ws cs)"
  by pat_completeness auto
termination
  by (relation "measure length") (auto simp: length_dropWhile_le less_Suc_eq_le)

text \<open>\<open>re.sub(r'[^\x00-\x7F]+', '', s)\<close>: every code point above 127 is deleted.\<close>

definition remove_non_ascii :: "pystr \<Rightarrow> pystr" where
  "remove_non_ascii s = filter (\<lambda>c. c \<le> 127) s"

section \<open>clean_text\<close>

text \<open>
  \<^verbatim>\<open>
  def clean_text(self, text: str) -> str:
      if not text:
          return ""
      text = re.sub(r'\s+', ' ', text.strip())
      text = re.sub(r'[^\x00-\x7F]+', '', text)  # remove non-ascii
      return text[:200] + "..." if len(text) > 200 else text
  \<close>
  \<open>not text\<close> holds for \<open>None\<close> and for the empty string; the argument is an option so that
  a missing text is an input of the model.
\<close>

definition normalized :: "pystr \<Rightarrow> pystr" where
  "normalized t = remove_non_ascii (collapse_ws (strip t))"

definition clean_text :: "pystr option \<Rightarrow> pystr" where
  "clean_text text =
     (case text of
        None \<Rightarrow> []
      | Some t \<Rightarrow>
          if t = [] then []
          else if length (normalized t) > 200 then take 200 (normalized t) @ py ''...''
          else normalized t)"


definition ascii :: "codepoint \<Rightarrow> bool" where
  "ascii c \<longleftrightarrow> c \<le> 127"


text \<open>
  Two shapes of a string, used to describe what the whitespace steps produce:
  \<open>single_spaced\<close> (every whitespace code point is a space, 32, followed by a
  non-whitespace one unless it is last) and \<open>ends_ok\<close> (no whitespace at either end).
\<close>

fun single_spaced :: "pystr \<Rightarrow> bool" where
  "single_spaced [] = True"
| "single_spaced [c] = (if isspace c then c = 32 else True)"
| "single_spaced (c # d # r) =
     ((if isspace c then c = 32 \<and> \<not> isspace d else True) \<and> single_spaced (d # r))"

definition ends_ok :: "pystr \<Rightarrow> bool" where
  "ends_ok s = (if s = [] then True else \<not> isspace (hd s) \<and> \<not> isspace (last s))"

section \<open>categorize_headlines\<close>

text \<open>
  A headline is the dict \<open>{"title": ..., "source": ..., "url": ...}\<close> that
  \<open>scrape_example\<close> builds; the three keys are always there.
\<close>

record headline =
  title :: pystr
  source :: pystr
  url :: pystr

text \<open>
  The category dict keeps its insertion order (the order of the digest's sections), so
  it is an association list from the label to the bucket.
\<close>

type_synonym categories = "(pystr \<times> headline list) list"

definition initial_categories :: categories where
  "initial_categories =
     [(py ''Energy & Oil'', []),
      (py ''Construction & Infrastructure'', []),
      (py ''Tenders & Contracts'', []),
      (py ''Technology & Innovation'', []),
      (py ''Heavy Equipment'', []),
      (py ''Other News'', [])]"

definition energy :: "pystr list" where
  "energy = [py ''oil'', py ''gas'', py ''energy'', py ''ongc'']"

definition construction :: "pystr list" where
  "construction = [py ''construction'', py ''infrastructure'', py ''bridge'', py ''metro'']"

definition tenders :: "pystr list" where
  "tenders = [py ''tender'', py ''bid'', py ''contract'']"

definition tech :: "pystr list" where
  "tech = [py ''technology'', py ''digital'', py ''ai'']"

definition equipment :: "pystr list" where
  "equipment =
     [py ''crane'', py ''loader'', py ''excavator'', py ''backhoe'', py ''bulldozer'',
      py ''heavy equipment'', py ''jcb'', py ''construction machine'']"

text \<open>
  \<open>str.lower()\<close>. On a string of ASCII code points it maps A-Z to a-z and nothing else.
  On other strings it follows the Unicode case tables of the interpreter, which are not
  part of the repository: there the result is the parameter \<open>unicode_lower\<close>.
\<close>

definition ascii_lower :: "codepoint \<Rightarrow> codepoint" where
  "ascii_lower c = (if 65 \<le> c \<and> c \<le> 90 then c + 32 else c)"

definition lower :: "(pystr \<Rightarrow> pystr) \<Rightarrow> pystr \<Rightarrow> pystr" where
  "lower unicode_lower s = (if list_all ascii s then map ascii_lower s else unicode_lower s)"

text \<open>\<open>any(k in title for k in keywords)\<close>; \<open>k in title\<close> is the substring test.\<close>

definition any_in :: "pystr list \<Rightarrow> pystr \<Rightarrow> bool" where
  "any_in keywords t = list_ex (\<lambda>k. sublist k t) keywords"

text \<open>\<open>categories[label].append(h)\<close>, for a label that is a key of the dict.\<close>

definition append_to :: "pystr \<Rightarrow> headline \<Rightarrow> categories \<Rightarrow> categories" where
  "append_to label h cats =
     map (\<lambda>(k, items). if k = label then (k, items @ [h]) else (k, items)) cats"

text \<open>
  The body of the loop over the headlines:
  \<^verbatim>\<open>
      title = h['title'].lower()
      if any(k in title for k in energy):
          categories['Energy & Oil'].append(h)
      elif any(k in title for k in construction):
          categories['Construction & Infrastructure'].append(h)
      elif any(k in title for k in tenders):
          categories['Tenders & Contracts'].append(h)
      elif any(k in title for k in equipment):
          categories['Heavy Equipment'].append(h)
      elif any(k in title for k in tech):
          categories['Technology & Innovation'].append(h)
      else:
          categories['Other News'].append(h)
  \<close>
\<close>

definition categorize_step :: "(pystr \<Rightarrow> pystr) \<Rightarrow> headline \<Rightarrow> categories \<Rightarrow> categories" where
  "categorize_step unicode_lower h cats =
     (let t = lower unicode_lower (title h) in
      if any_in energy t then append_to (py ''Energy & Oil'') h cats
      else if any_in construction t then append_to (py ''Construction & Infrastructure'') h cats
      else if any_in tenders t then append_to (py ''Tenders & Contracts'') h cats
      else if any_in equipment t then append_to (py ''Heavy Equipment'') h cats
      else if any_in tech t then append_to (py ''Technology & Innovation'') h cats
      else append_to (py ''Other News'') h cats)"

definition categorize_headlines :: "(pystr \<Rightarrow> pystr) \<Rightarrow> headline list \<Rightarrow> categories" where
  "categorize_headlines unicode_lower headlines =
     fold (categorize_step unicode_lower) headlines initial_categories"

text \<open>The key of the branch that the chain above takes for a lower-cased title.\<close>

definition branch_label :: "pystr \<Rightarrow> pystr" where
  "branch_label t =
     (if any_in energy t then py ''Energy & Oil''
      else if any_in construction t then py ''Construction & Infrastructure''
      else if any_in tenders t then py ''Tenders & Contracts''
      else if any_in equipment t then py ''Heavy Equipment''
      else if any_in tech t then py ''Technology & Innovation''
      else py ''Other News'')"

text \<open>
  The categorizer as the specification words it: five rule sets in a fixed priority
  order, each a label with its keywords; the first rule set with a keyword that is a
  substring of the lower-cased title gives the bucket, and no match gives Other News.
\<close>

definition spec_rule_sets :: "(pystr \<times> pystr list) list" where
  "spec_rule_sets =
     [(py ''Energy & Oil'', [py ''oil'', py ''gas'', py ''energy'', py ''ongc'']),
      (py ''Construction & Infrastructure'',
         [py ''construction'', py ''infrastructure'', py ''bridge'', py ''metro'']),
      (py ''Tenders & Contracts'', [py ''tender'', py ''bid'', py ''contract'']),
      (py ''Heavy Equipment'',
         [py ''crane'', py ''loader'', py ''excavator'', py ''backhoe'', py ''bulldozer'',
          py ''heavy equipment'', py ''jcb'', py ''construction machine'']),
      (py ''Technology & Innovation'', [py ''technology'', py ''digital'', py ''ai''])]"

definition spec_category :: "pystr \<Rightarrow> pystr" where
  "spec_category t =
     (case find (\<lambda>(label, keywords). list_ex (\<lambda>k. sublist k t) keywords) spec_rule_sets of
        Some (label, keywords) \<Rightarrow> label
      | None \<Rightarrow> py ''Other News'')"

definition bucket_labels :: "pystr list" where
  "bucket_labels = map fst initial_categories"

text \<open>Two headlines used as concrete inputs.\<close>

definition h_ongc :: headline where
  "h_ongc = \<lparr>title = py ''ONGC signs tender for gas pipeline'', source = py ''ET Infra'',
             url = py ''https://infra.economictimes.indiatimes.com/a''\<rparr>"

definition h_crane :: headline where
  "h_crane = \<lparr>title = py ''BEML unveils AI crane'', source = py ''BEML'',
             url = py ''https://www.bemlindia.in/press-release/''\<rparr>"

section \<open>The digest\<close>

text \<open>
  \<open>now_ist = datetime.now(ist)\<close> is an input of the model: the fields that the code
  reads. \<open>strftime("%d %B %Y")\<close> writes the day of the month with two digits, the English
  name of the month and the year in decimal.
\<close>

datatype month =
  January | February | March | April | May | June | July | August | September | October
  | November | December

record datetime =
  dt_year :: nat
  dt_month :: month
  dt_day :: nat
  dt_hour :: nat

fun month_name :: "month \<Rightarrow> pystr" where
  "month_name January = py ''January''"
| "month_name February = py ''February''"
| "month_name March = py ''March''"
| "month_name April = py ''April''"
| "month_name May = py ''May''"
| "month_name June = py ''June''"
| "month_name July = py ''July''"
| "month_name August = py ''August''"
| "month_name September = py ''September''"
| "month_name October = py ''October''"
| "month_name November = py ''November''"
| "month_name December = py ''December''"

text \<open>\<open>str(n)\<close> for a natural number: its decimal digits (48 is the digit zero).\<close>

fun str_nat :: "nat \<Rightarrow> pystr" where
  "str_nat n = (if n < 10 then [48 + n] else str_nat (n div 10) @ [48 + n mod 10])"

declare str_nat.simps [simp del]

definition date_only :: "datetime \<Rightarrow> pystr" where
  "date_only now =
     (if dt_day now < 10 then [48] @ str_nat (dt_day now) else str_nat (dt_day now))
     @ [32] @ month_name (dt_month now) @ [32] @ str_nat (dt_year now)"

definition greeting :: "datetime \<Rightarrow> pystr" where
  "greeting now =
     (if dt_hour now < 12 then py ''Good Morning Mr. Keshav Agarwal''
      else py ''Good Evening Mr. Keshav Agarwal'')"

text \<open>\<open>sep.join(xs)\<close>.\<close>

fun join :: "pystr \<Rightarrow> pystr list \<Rightarrow> pystr" where
  "join sep [] = []"
| "join sep [x] = x"
| "join sep (x # y # r) = x @ sep @ join sep (y # r)"

text \<open>
  \<open>list(set(i['source'] for i in items))\<close>. The set holds each source label once. The
  order in which \<open>list\<close> reads a set of strings follows the strings' hashes, which the
  interpreter salts anew in every process: it is not fixed by the program, so it is the
  parameter \<open>set_order\<close>, which receives the distinct labels in the order of their first
  insertion and returns them in the order of iteration. Whatever the hashes are, the
  result is a rearrangement of the labels: \<open>permuting\<close>.
\<close>

definition first_occurrences :: "'a list \<Rightarrow> 'a list" where
  "first_occurrences xs = rev (remdups (rev xs))"

definition permuting :: "(pystr list \<Rightarrow> pystr list) \<Rightarrow> bool" where
  "permuting set_order \<longleftrightarrow> (\<forall>xs. distinct xs \<longrightarrow> mset (set_order xs) = mset xs)"

definition sources_of :: "(pystr list \<Rightarrow> pystr list) \<Rightarrow> headline list \<Rightarrow> pystr list" where
  "sources_of set_order items = set_order (first_occurrences (map source items))"

text \<open>The two fixed lines of the fallback digest (128640 is U+1F680, the rocket).\<close>

definition signature_line :: pystr where
  "signature_line = [128640] @ py '' Stay ahead with CD Jindal AI Assistant''"

definition no_news_line :: pystr where
  "no_news_line = py ''No infrastructure news today.''"

text \<open>
  \<^verbatim>\<open>
  def create_fallback_digest(self, categorized_headlines: Dict) -> str:
      ...
      digest = f"<b>{greeting}! \U0001F4C8</b>\n{date_only}\n\n<b>Daily Infrastructure Industry Digest</b>\n\n"
      for category, items in categorized_headlines.items():
          if items:
              sources = list(set(i['source'] for i in items))
              digest += f"<b>{category}:</b>\n{len(items)} key updates from {', '.join(sources[:2])}.\n\n"
      if not any(categorized_headlines.values()):
          digest += "No infrastructure news today.\n\n"
      digest += "\U0001F680 Stay ahead with CD Jindal AI Assistant"
      return digest
  \<close>
  \<open>digest_header\<close> is the first assignment, \<open>category_heading\<close> the bold heading of a
  bucket and \<open>digest_section\<close> what one turn of the loop appends (10 is the newline,
  128200 is U+1F4C8).
\<close>

definition digest_header :: "datetime \<Rightarrow> pystr" where
  "digest_header now =
     py ''<b>'' @ greeting now @ py ''! '' @ [128200] @ py ''</b>'' @ [10] @ date_only now
     @ [10, 10] @ py ''<b>Daily Infrastructure Industry Digest</b>'' @ [10, 10]"

definition category_heading :: "pystr \<Rightarrow> pystr" where
  "category_heading category = py ''<b>'' @ category @ py '':</b>''"

definition digest_section ::
  "(pystr list \<Rightarrow> pystr list) \<Rightarrow> pystr \<times> headline list \<Rightarrow> pystr" where
  "digest_section set_order entry =
     (case entry of (category, items) \<Rightarrow>
        if items \<noteq> [] then
          category_heading category @ [10] @ str_nat (length items)
          @ py '' key updates from '' @ join (py '', '') (take 2 (sources_of set_order items))
          @ py ''.'' @ [10, 10]
        else [])"

definition create_fallback_digest ::
  "(pystr list \<Rightarrow> pystr list) \<Rightarrow> datetime \<Rightarrow> categories \<Rightarrow> pystr" where
  "create_fallback_digest set_order now categorized_headlines =
     (let digest = digest_header now;
          digest = fold (\<lambda>entry digest. digest @ digest_section set_order entry)
                     categorized_headlines digest;
          digest = (if \<not> list_ex (\<lambda>(category, items). items \<noteq> []) categorized_headlines
                    then digest @ no_news_line @ [10, 10] else digest)
      in digest @ signature_line)"

text \<open>
  The prompt of \<open>generate_digest_with_gemini\<close>: the loop that lists the headlines of
  every non-empty bucket and counts them, and the f-string around it (39 is the
  apostrophe, 8211 the en dash).
\<close>

definition headlines_text :: "categories \<Rightarrow> pystr" where
  "headlines_text categorized_headlines =
     fold (\<lambda>(cat, items) text.
             if items \<noteq> [] then
               fold (\<lambda>h text. text @ py ''- '' @ title h @ py '' ('' @ source h @ py '')'' @ [10])
                 items (text @ [10] @ cat @ py '':'' @ [10])
             else text)
       categorized_headlines []"

definition total_articles :: "categories \<Rightarrow> nat" where
  "total_articles categorized_headlines =
     fold (\<lambda>(cat, items) total. if items \<noteq> [] then total + length items else total)
       categorized_headlines 0"

definition prompt :: "datetime \<Rightarrow> categories \<Rightarrow> pystr" where
  "prompt now categorized_headlines =
     greeting now @ py ''! '' @ [128200] @ [10] @ date_only now @ [10, 10]
     @ py ''Here are today'' @ [39] @ py ''s top Infrastructure Headlines (''
     @ str_nat (total_articles categorized_headlines) @ py '' total):'' @ [10]
     @ (if strip (headlines_text categorized_headlines) = []
        then py ''No infrastructure news available.''
        else headlines_text categorized_headlines)
     @ [10, 10]
     @ py ''Now write a Telegram-friendly summary using the following rules:'' @ [10]
     @ py ''- Use only <b> and <i> HTML tags.'' @ [10]
     @ py ''- For each category (like Energy & Oil, Heavy Equipment, etc.), summarize in 2''
     @ [8211] @ py ''3 impactful sentences.'' @ [10]
     @ py ''- Include specific company names, numbers, and regions.'' @ [10]
     @ py ''- Mention the source name (e.g., ET Infra), but do not hyperlink it.'' @ [10]
     @ py ''- Make a separate section for <b>Heavy Equipment</b> updates (like cranes, excavators, machinery).''
     @ [10]
     @ py ''- End with: '' @ signature_line"

text \<open>
  An exception in flight, with the name of its class and \<open>str(e)\<close>. \<open>Exc\<close> is an
  instance of \<open>Exception\<close> or of a subclass, which \<open>except Exception\<close> catches; \<open>BaseExc\<close>
  is an instance of \<open>BaseException\<close> outside \<open>Exception\<close> (\<open>KeyboardInterrupt\<close>,
  \<open>SystemExit\<close>, \<open>GeneratorExit\<close>), which it does not catch.
\<close>

datatype raised = Exc pystr pystr | BaseExc pystr pystr

text \<open>
  \<^verbatim>\<open>
  def generate_digest_with_gemini(self, categorized_headlines: Dict) -> str:
      try:
          ...
          response = self.gemini_model.generate_content(prompt)
          return response.text
      except Exception as e:
          print(f"Gemini failed: {e}")
          return self.create_fallback_digest(categorized_headlines)
  \<close>
  The result is the returned text (\<open>Inr\<close>) or the exception that reaches the caller
  (\<open>Inl\<close>). The generative backend is an opaque call that returns the text of its response
  or raises: \<open>generate_content(prompt)\<close> and the read of \<open>response.text\<close> are one
  outcome, \<open>backend prompt\<close>. The handler runs outside the \<open>try\<close>: its \<open>print\<close> writes to the
  standard output and may raise in its turn (\<open>print_line\<close> gives \<open>None\<close> when the line was
  written and the exception otherwise), and what it raises reaches the caller. Reading
  the clock and building the prompt and the fallback digest from headlines that carry
  their keys raise nothing.
\<close>

definition generate_digest_with_gemini ::
  "(pystr \<Rightarrow> raised + pystr) \<Rightarrow> (pystr \<Rightarrow> raised option) \<Rightarrow> (pystr list \<Rightarrow> pystr list)
     \<Rightarrow> datetime \<Rightarrow> categories \<Rightarrow> raised + pystr" where
  "generate_digest_with_gemini backend print_line set_order now categorized_headlines =
     (case backend (prompt now categorized_headlines) of
        Inr text \<Rightarrow> Inr text
      | Inl (BaseExc cls msg) \<Rightarrow> Inl (BaseExc cls msg)
      | Inl (Exc cls msg) \<Rightarrow>
          (case print_line (py ''Gemini failed: '' @ msg) of
             Some e \<Rightarrow> Inl e
           | None \<Rightarrow> Inr (create_fallback_digest set_order now categorized_headlines)))"

section \<open>send_to_telegram\<close>

text \<open>
  \<open>s.replace(old, new)\<close>: the occurrences of \<open>old\<close> are replaced from the left, without
  overlap. With an empty \<open>old\<close>, Python puts \<open>new\<close> before every code point and at the end.
\<close>

fun replace :: "pystr \<Rightarrow> pystr \<Rightarrow> pystr \<Rightarrow> pystr" where
  "replace old new [] = (if old = [] then new else [])"
| "replace old new (c # cs) =
     (if old = [] then new @ c # replace old new cs
      else if prefix old (c # cs) then new @ replace old new (drop (length old) (c # cs))
      else c # replace old new cs)"

text \<open>
  \<^verbatim>\<open>
      clean_message = (
          message.replace("<ul>", "")
                 .replace("</ul>", "")
                 .replace("<li>", "\<bullet> ")
                 .replace("</li>", "\n")
                 .replace("<br>", "\n")
                 .replace("<br/>", "\n")
                 .replace("<br />", "\n")
                 .replace("&nbsp;", " ")
      )
      await self.telegram_bot.send_message(chat_id=..., text=clean_message, ...)
  \<close>
  The bullet is U+2022, code point 8226. \<open>send_message\<close> is the opaque delivery call; what
  it receives is \<open>clean_message\<close>.
\<close>

definition clean_message :: "pystr \<Rightarrow> pystr" where
  "clean_message message =
     replace (py ''&nbsp;'') (py '' '')
       (replace (py ''<br />'') [10]
         (replace (py ''<br/>'') [10]
           (replace (py ''<br>'') [10]
             (replace (py ''</li>'') [10]
               (replace (py ''<li>'') [8226, 32]
                 (replace (py ''</ul>'') []
                   (replace (py ''<ul>'') [] message)))))))"

definition send_to_telegram :: "(pystr \<Rightarrow> 'r) \<Rightarrow> pystr \<Rightarrow> 'r" where
  "send_to_telegram send_message message = send_message (clean_message message)"

text \<open>
  Concrete inputs: a time of day, a backend that fails with an \<open>Exception\<close>, one that is
  interrupted from the keyboard, one that answers, and two more headlines.
\<close>

definition example_now :: datetime where
  "example_now = \<lparr>dt_year = 2026, dt_month = November, dt_day = 4, dt_hour = 9\<rparr>"

definition failing_backend :: "pystr \<Rightarrow> raised + pystr" where
  "failing_backend p = Inl (Exc (py ''ResourceExhausted'') (py ''429 quota exceeded''))"

definition interrupted_backend :: "pystr \<Rightarrow> raised + pystr" where
  "interrupted_backend p = Inl (BaseExc (py ''KeyboardInterrupt'') [])"

definition answering_backend :: "pystr \<Rightarrow> raised + pystr" where
  "answering_backend p = Inr (py ''<b>Energy</b> ONGC signs a gas pipeline tender.'')"

definition h_upper :: headline where
  "h_upper = \<lparr>title = py ''ONGC PLANS EXPANSION'', source = py ''Projects Today'',
              url = py ''https://www.projectstoday.com/News/c''\<rparr>"

definition h_oil :: headline where
  "h_oil = \<lparr>title = py ''Oil output rises'', source = py ''ONGC'',
            url = py ''https://ongcindia.com/b''\<rparr>"


section \<open>Properties of clean_text\<close>

lemma isspace_32: "isspace 32" by (simp add: isspace_def)
lemma not_isspace_46: "\<not> isspace 46" by (simp add: isspace_def)

lemma collapse_ws_hd:
  "s \<noteq> [] \<Longrightarrow> \<not> isspace (hd s) \<Longrightarrow> collapse_ws s = hd s # collapse_ws (tl s)"
  by (cases s) auto

lemma single_spaced_collapse: "single_spaced (collapse_ws s)"
proof (induction s rule: collapse_ws.induct)
  case 1
  then show ?case by simp
next
  case (2 c cs)
  show ?case
  proof (cases "isspace c")
    case True
    let ?r = "dropWhile isspace cs"
    have ih: "single_spaced (collapse_ws ?r)" using 2(1) True by simp
    show ?thesis
    proof (cases ?r)
      case Nil
      have "collapse_ws (c # cs) = 32 # collapse_ws ?r" using True by simp
      also have "\<dots> = [32]" by (simp only: Nil collapse_ws.simps)
      finally show ?thesis by (simp add: isspace_32)
    next
      case (Cons d r)
      then have nd: "\<not> isspace d" by (metis hd_dropWhile list.sel(1) list.distinct(1))
      then have "collapse_ws ?r = d # collapse_ws r" using Cons by simp
      then show ?thesis using True ih nd by (simp add: isspace_32)
    qed
  next
    case False
    have ih: "single_spaced (collapse_ws cs)" using 2(2) False by simp
    show ?thesis using False ih by (cases "collapse_ws cs") auto
  qed
qed

lemma collapse_fixed: "single_spaced s \<Longrightarrow> collapse_ws s = s"
  by (induction s rule: single_spaced.induct) (auto split: if_splits)

lemma single_spaced_take: "single_spaced s \<Longrightarrow> single_spaced (take n s)"
proof (induction s arbitrary: n rule: single_spaced.induct)
  case 1
  then show ?case by simp
next
  case (2 c)
  then show ?case by (cases n) auto
next
  case (3 c d r)
  show ?case
  proof (cases n)
    case 0
    then show ?thesis by simp
  next
    case (Suc m)
    have "single_spaced (take m (d # r))" using 3 by simp
    then show ?thesis using 3(2) Suc by (cases m) (auto split: if_splits)
  qed
qed

lemma nospace_single_spaced: "list_all (\<lambda>c. \<not> isspace c) t \<Longrightarrow> single_spaced t"
  by (induction t rule: single_spaced.induct) auto

lemma single_spaced_append:
  "single_spaced s \<Longrightarrow> list_all (\<lambda>c. \<not> isspace c) t \<Longrightarrow> single_spaced (s @ t)"
proof (induction s rule: single_spaced.induct)
  case 1
  then show ?case by (simp add: nospace_single_spaced)
next
  case (2 c)
  then show ?case using nospace_single_spaced[of t] by (cases t) (auto split: if_splits)
next
  case (3 c d r)
  then show ?case by (auto split: if_splits)
qed

lemma hd_collapse: "s \<noteq> [] \<Longrightarrow> \<not> isspace (hd s) \<Longrightarrow> hd (collapse_ws s) = hd s \<and> collapse_ws s \<noteq> []"
  by (cases s) auto

lemma last_collapse:
  "s \<noteq> [] \<Longrightarrow> \<not> isspace (last s) \<Longrightarrow> collapse_ws s \<noteq> [] \<and> last (collapse_ws s) = last s"
proof (induction s rule: collapse_ws.induct)
  case 1
  then show ?case by simp
next
  case (2 c cs)
  show ?case
  proof (cases "isspace c")
    case True
    let ?r = "dropWhile isspace cs"
    have cs: "cs \<noteq> []" using 2(4) True by auto
    then have lc: "\<not> isspace (last cs)" using 2(4) by simp
    have "last cs \<in> set cs" using cs by simp
    then have r: "?r \<noteq> []" using lc by auto
    have "\<exists>p. cs = p @ ?r" by (metis takeWhile_dropWhile_id)
    then have lr: "last ?r = last cs" using r by (metis last_appendR)
    have "collapse_ws ?r \<noteq> [] \<and> last (collapse_ws ?r) = last ?r"
      using 2(1) True r lr lc by simp
    then show ?thesis using True lr cs by simp
  next
    case False
    show ?thesis
    proof (cases "cs = []")
      case True
      then show ?thesis using False by simp
    next
      case ne: False
      then have "collapse_ws cs \<noteq> [] \<and> last (collapse_ws cs) = last cs"
        using 2(2) 2(4) False by simp
      then show ?thesis using False ne by simp
    qed
  qed
qed

lemma ends_ok_strip: "ends_ok (strip s)"
proof -
  let ?a = "dropWhile isspace s"
  let ?b = "dropWhile isspace (rev ?a)"
  show ?thesis
  proof (cases "?b = []")
    case True
    have "strip s = rev ?b" by (simp add: strip_def)
    then have "strip s = []" by (simp only: True rev.simps)
    then show ?thesis by (simp add: ends_ok_def)
  next
    case False
    then have hb: "\<not> isspace (hd ?b)" by (rule hd_dropWhile)
    have a: "?a \<noteq> []"
    proof
      assume "?a = []"
      then have "?b = []" by (simp only: rev.simps dropWhile.simps)
      with False show False by simp
    qed
    then have ha: "\<not> isspace (hd ?a)" by (rule hd_dropWhile)
    have "\<exists>p. rev ?a = p @ ?b" by (metis takeWhile_dropWhile_id)
    then have "last ?b = last (rev ?a)" using False by (metis last_appendR)
    then have "last ?b = hd ?a" using a by (simp add: last_rev)
    then have "\<not> isspace (last ?b)" using ha by simp
    then show ?thesis using False hb by (simp add: ends_ok_def strip_def hd_rev last_rev)
  qed
qed

lemma strip_fixed: "ends_ok s \<Longrightarrow> strip s = s"
proof (cases "s = []")
  case True
  then show ?thesis by (simp add: strip_def)
next
  case False
  assume "ends_ok s"
  then have h: "\<not> isspace (hd s)" and l: "\<not> isspace (last s)"
    using False by (simp_all add: ends_ok_def)
  have 1: "dropWhile isspace s = s" using h False by (cases s) auto
  have "rev s \<noteq> []" "\<not> isspace (hd (rev s))" using False l by (simp_all add: hd_rev)
  then have 2: "dropWhile isspace (rev s) = rev s" by (cases "rev s") auto
  show ?thesis by (simp add: strip_def 1 2)
qed

lemma ends_ok_collapse: "ends_ok s \<Longrightarrow> ends_ok (collapse_ws s)"
  using hd_collapse[of s] last_collapse[of s] by (auto simp: ends_ok_def split: if_splits)

lemma set_strip: "set (strip s) \<subseteq> set s"
proof -
  have "set (strip s) \<subseteq> set (dropWhile isspace s)"
    unfolding strip_def using set_dropWhileD[of _ isspace "rev (dropWhile isspace s)"] by auto
  then show ?thesis using set_dropWhileD[of _ isspace s] by auto
qed

lemma collapse_chars: "c \<in> set (collapse_ws s) \<Longrightarrow> c = 32 \<or> (c \<in> set s \<and> \<not> isspace c)"
proof (induction s rule: collapse_ws.induct)
  case 1
  then show ?case by simp
next
  case (2 d cs)
  then show ?case by (auto split: if_splits dest: set_dropWhileD)
qed


lemma py_dots: "py ''...'' = [46, 46, 46]" by (simp add: py_def)

lemma normalized_shape:
  "single_spaced (collapse_ws (strip x)) \<and> ends_ok (collapse_ws (strip x))"
  by (simp add: single_spaced_collapse ends_ok_collapse ends_ok_strip)

lemma remove_non_ascii_fixed: "list_all ascii s \<Longrightarrow> remove_non_ascii s = s"
  by (simp add: remove_non_ascii_def ascii_def list_all_iff)

lemma ascii_remove_non_ascii: "list_all ascii (remove_non_ascii s)"
  by (simp add: remove_non_ascii_def ascii_def list_all_iff)

lemma ascii_normalized: "list_all ascii (normalized x)"
  by (simp add: normalized_def ascii_remove_non_ascii)

lemma normalized_fixed:
  assumes "single_spaced s" "ends_ok s" "list_all ascii s"
  shows "normalized s = s"
  using assms by (simp add: normalized_def strip_fixed collapse_fixed remove_non_ascii_fixed)

lemma ascii_collapse_strip:
  assumes "list_all (\<lambda>c. ascii c \<or> isspace c) x"
  shows "list_all ascii (collapse_ws (strip x))"
proof -
  have "ascii c" if "c \<in> set (collapse_ws (strip x))" for c
  proof -
    from collapse_chars[OF that] show ?thesis
    proof
      assume "c = 32" then show ?thesis by (simp add: ascii_def)
    next
      assume "c \<in> set (strip x) \<and> \<not> isspace c"
      then have "c \<in> set x" "\<not> isspace c" using set_strip[of x] by auto
      then show ?thesis using assms by (auto simp: list_all_iff)
    qed
  qed
  then show ?thesis by (simp add: list_all_iff)
qed

lemma truncated_shape:
  assumes ss: "single_spaced t" and eo: "ends_ok t" and len: "length t > 200"
  shows "single_spaced (take 200 t @ [46, 46, 46]) \<and> ends_ok (take 200 t @ [46, 46, 46])"
proof -
  have "single_spaced (take 200 t @ [46, 46, 46])"
    by (rule single_spaced_append) (simp_all add: single_spaced_take ss not_isspace_46)
  moreover have "t \<noteq> []" using len by auto
  then have "\<not> isspace (hd t)" using eo by (simp add: ends_ok_def)
  then have "ends_ok (take 200 t @ [46, 46, 46])"
    using len by (cases t) (auto simp: ends_ok_def not_isspace_46)
  ultimately show ?thesis by simp
qed



text \<open>
  C5. For every input, the string that \<open>clean_text\<close> returns has at most 203 code
  points. When the cleaned text (\<open>normalized\<close>) is longer than 200, the result is its
  first 200 code points followed by the three dots, 203 in all; otherwise the result is
  the cleaned text unchanged.
\<close>

theorem clean_text_length:
  "length (clean_text x) \<le> 203
   \<and> clean_text (Some t) =
       (if length (normalized t) > 200 then take 200 (normalized t) @ py ''...'' else normalized t)
   \<and> length (clean_text (Some t)) =
       (if length (normalized t) > 200 then 203 else length (normalized t))"
proof -
  have e: "normalized [] = []" by (simp add: normalized_def strip_def remove_non_ascii_def)
  have 1: "length (clean_text x) \<le> 203"
    by (cases x) (simp_all add: clean_text_def py_dots)
  have 2: "clean_text (Some t) =
       (if length (normalized t) > 200 then take 200 (normalized t) @ py ''...'' else normalized t)"
    by (cases "t = []") (simp_all add: clean_text_def e)
  have 3: "length (clean_text (Some t)) =
       (if length (normalized t) > 200 then 203 else length (normalized t))"
    by (simp add: 2 py_dots)
  show ?thesis using 1 2 3 by blast
qed








text \<open>
  A second pass of \<open>clean_text\<close> changes nothing when the cleaned text of the first pass
  has single spaces only and no space at either end, that is, when the deletion of the
  non-ASCII code points has not brought two spaces together or uncovered one at an end.
\<close>

lemma clean_text_idempotent_when_spaced:
  assumes ss: "single_spaced (normalized x)" and eo: "ends_ok (normalized x)"
  shows "clean_text (Some (clean_text (Some x))) = clean_text (Some x)"
proof (cases "x = []")
  case True
  then show ?thesis by (simp add: clean_text_def)
next
  case False
  let ?t = "normalized x"
  have as: "list_all ascii ?t" by (rule ascii_normalized)
  show ?thesis
  proof (cases "length ?t > 200")
    case True
    let ?y = "take 200 ?t @ [46, 46, 46]"
    have y: "clean_text (Some x) = ?y" using False True by (simp add: clean_text_def py_dots)
    have "list_all ascii ?y" using as by (auto simp: list_all_iff ascii_def dest: in_set_takeD)
    then have ny: "normalized ?y = ?y" using truncated_shape[OF ss eo True] by (simp add: normalized_fixed)
    have "clean_text (Some ?y) = ?y" using True by (simp add: clean_text_def ny py_dots)
    then show ?thesis by (simp add: y)
  next
    case le: False
    have y: "clean_text (Some x) = ?t" using False le by (simp add: clean_text_def)
    have "normalized ?t = ?t" using ss eo as by (rule normalized_fixed)
    then have "clean_text (Some ?t) = ?t" using le by (simp add: clean_text_def)
    then show ?thesis by (simp add: y)
  qed
qed

text \<open>
  C3 fails on the code. In the title \<open>e-acute, space, a\<close> the accented letter (code point
  233) is deleted after the whitespace has been trimmed and collapsed, so the first pass
  returns the text with a leading space although it has called \<open>strip\<close>; a second pass
  trims it, and the two results differ. In \<open>a, space, e-acute, space, b\<close> the same order of
  the two substitutions leaves a double space, which the second pass collapses.
\<close>

theorem clean_text_not_idempotent:
  "clean_text (Some [233, 32, 97]) = [32, 97]
   \<and> clean_text (Some (clean_text (Some [233, 32, 97]))) = [97]
   \<and> clean_text (Some (clean_text (Some [233, 32, 97]))) \<noteq> clean_text (Some [233, 32, 97])
   \<and> clean_text (Some [97, 32, 233, 32, 98]) = [97, 32, 32, 98]
   \<and> clean_text (Some (clean_text (Some [97, 32, 233, 32, 98]))) = [97, 32, 98]"
  by (simp add: clean_text_def normalized_def strip_def isspace_def remove_non_ascii_def)

section \<open>Properties of categorize_headlines\<close>

lemma categorize_step_branch:
  "categorize_step ul h cats = append_to (branch_label (lower ul (title h))) h cats"
  by (simp add: categorize_step_def branch_label_def Let_def)

lemma branch_label_spec: "branch_label t = spec_category t"
  by (simp add: branch_label_def spec_category_def spec_rule_sets_def any_in_def
      energy_def construction_def tenders_def equipment_def tech_def)

lemma fold_append_to:
  "fold (\<lambda>h. append_to (f h) h) hs cats =
     map (\<lambda>(k, items). (k, items @ filter (\<lambda>h. f h = k) hs)) cats"
proof (induction hs arbitrary: cats)
  case Nil
  then show ?case by simp
next
  case (Cons h hs)
  have "append_to (f h) h cats =
      map (\<lambda>(k, items). (k, items @ (if f h = k then [h] else []))) cats"
    by (auto simp: append_to_def)
  then show ?case by (simp add: Cons.IH comp_def case_prod_beta)
qed

lemma categorize_headlines_buckets:
  "categorize_headlines ul hs =
     map (\<lambda>k. (k, filter (\<lambda>h. branch_label (lower ul (title h)) = k) hs)) bucket_labels"
proof -
  have "categorize_step ul = (\<lambda>h. append_to (branch_label (lower ul (title h))) h)"
    by (rule ext)+ (simp add: categorize_step_branch)
  then show ?thesis
    by (simp add: categorize_headlines_def fold_append_to bucket_labels_def initial_categories_def)
qed

lemma distinct_bucket_labels: "distinct bucket_labels"
  by (simp add: bucket_labels_def initial_categories_def py_def)

lemma branch_label_in: "branch_label t \<in> set bucket_labels"
  by (simp add: branch_label_def bucket_labels_def initial_categories_def)

lemma mset_buckets:
  "distinct L \<Longrightarrow>
   mset (concat (map (\<lambda>k. filter (\<lambda>h. f h = k) hs) L)) = mset (filter (\<lambda>h. f h \<in> set L) hs)"
proof (induction L)
  case Nil
  then show ?case by simp
next
  case (Cons a L)
  have "mset (filter (\<lambda>h. f h = a) hs) + mset (filter (\<lambda>h. f h \<in> set L) hs)
      = mset (filter (\<lambda>h. f h = a \<or> f h \<in> set L) hs)"
    using Cons.prems by (induction hs) auto
  then show ?case using Cons by simp
qed

lemma label_h_ongc: "branch_label (lower ul (title h_ongc)) = py ''Energy & Oil''"
  by (simp add: h_ongc_def lower_def ascii_def ascii_lower_def branch_label_def any_in_def
      energy_def py_def sublist_code)

lemma label_h_crane: "branch_label (lower ul (title h_crane)) = py ''Heavy Equipment''"
  by (simp add: h_crane_def lower_def ascii_def ascii_lower_def branch_label_def any_in_def
      energy_def construction_def tenders_def equipment_def py_def sublist_code)

lemma label_neq: "py ''Heavy Equipment'' \<noteq> py ''Energy & Oil''" by (simp add: py_def)

lemma categorize_example:
  "categorize_headlines ul [h_ongc, h_crane] =
     [(py ''Energy & Oil'', [h_ongc]),
      (py ''Construction & Infrastructure'', []),
      (py ''Tenders & Contracts'', []),
      (py ''Technology & Innovation'', []),
      (py ''Heavy Equipment'', [h_crane]),
      (py ''Other News'', [])]"
  by (simp add: categorize_headlines_buckets label_h_ongc label_h_crane bucket_labels_def
      initial_categories_def) (simp add: py_def)

lemma lower_h_upper: "lower ul (title h_upper) = py ''ongc plans expansion''"
  by (simp add: h_upper_def lower_def ascii_def ascii_lower_def py_def)

lemma lower_ongc_title:
  "lower ul (py ''ONGC signs tender for gas pipeline'') = py ''ongc signs tender for gas pipeline''"
  by (simp add: lower_def ascii_def ascii_lower_def py_def)

text \<open>
  C1. \<open>categorize_headlines\<close> lower-cases the title (on an ASCII title, A-Z become a-z
  and nothing else changes) and puts every headline in the bucket of the first rule set,
  in the priority order Energy & Oil, Construction & Infrastructure, Tenders & Contracts,
  Heavy Equipment, Technology & Innovation, that has a keyword occurring as a substring
  of the lower-cased title, and in Other News when none has: the bucket of each label
  holds exactly the headlines whose \<open>spec_category\<close> is that label. The title "ONGC signs
  tender for gas pipeline" is lower-cased to "ongc signs tender for gas pipeline",
  contains the keyword "tender" and goes to Energy & Oil. The title "ONGC PLANS
  EXPANSION" contains no keyword as it stands and goes to Energy & Oil all the same,
  through its lower-cased form.
\<close>

theorem categorize_first_match:
  "categorize_headlines ul hs =
     map (\<lambda>label. (label, filter (\<lambda>h. spec_category (lower ul (title h)) = label) hs))
       bucket_labels
   \<and> (list_all ascii t \<longrightarrow> lower ul t = map ascii_lower t)
   \<and> lower ul (py ''ONGC signs tender for gas pipeline'')
       = py ''ongc signs tender for gas pipeline''
   \<and> spec_category (lower ul (py ''ONGC signs tender for gas pipeline'')) = py ''Energy & Oil''
   \<and> sublist (py ''tender'') (lower ul (py ''ONGC signs tender for gas pipeline''))
   \<and> categorize_headlines ul
        [\<lparr>title = py ''ONGC signs tender for gas pipeline'', source = s, url = u\<rparr>] =
       [(py ''Energy & Oil'',
           [\<lparr>title = py ''ONGC signs tender for gas pipeline'', source = s, url = u\<rparr>]),
        (py ''Construction & Infrastructure'', []),
        (py ''Tenders & Contracts'', []),
        (py ''Technology & Innovation'', []),
        (py ''Heavy Equipment'', []),
        (py ''Other News'', [])]
   \<and> spec_category (py ''ONGC PLANS EXPANSION'') = py ''Other News''
   \<and> lower ul (py ''ONGC PLANS EXPANSION'') = py ''ongc plans expansion''
   \<and> categorize_headlines ul
        [\<lparr>title = py ''ONGC PLANS EXPANSION'', source = s, url = u\<rparr>] =
       [(py ''Energy & Oil'', [\<lparr>title = py ''ONGC PLANS EXPANSION'', source = s, url = u\<rparr>]),
        (py ''Construction & Infrastructure'', []),
        (py ''Tenders & Contracts'', []),
        (py ''Technology & Innovation'', []),
        (py ''Heavy Equipment'', []),
        (py ''Other News'', [])]"
proof -
  let ?t = "py ''ONGC signs tender for gas pipeline''"
  let ?v = "py ''ONGC PLANS EXPANSION''"
  have lo: "lower ul ?t = py ''ongc signs tender for gas pipeline''"
    by (rule lower_ongc_title)
  have lv: "lower ul ?v = py ''ongc plans expansion''"
    by (simp add: lower_def ascii_def ascii_lower_def py_def)
  have 1: "categorize_headlines ul hs =
     map (\<lambda>label. (label, filter (\<lambda>h. spec_category (lower ul (title h)) = label) hs))
       bucket_labels" for hs
    by (simp add: categorize_headlines_buckets branch_label_spec)
  have 0: "list_all ascii t \<longrightarrow> lower ul t = map ascii_lower t"
    by (simp add: lower_def)
  have 2: "spec_category (lower ul ?t) = py ''Energy & Oil''"
    unfolding lo by (simp add: spec_category_def spec_rule_sets_def py_def sublist_code)
  have 3: "sublist (py ''tender'') (lower ul ?t)"
    unfolding lo by (simp add: py_def sublist_code)
  have 4: "categorize_headlines ul [\<lparr>title = ?t, source = s, url = u\<rparr>] =
       [(py ''Energy & Oil'', [\<lparr>title = ?t, source = s, url = u\<rparr>]),
        (py ''Construction & Infrastructure'', []),
        (py ''Tenders & Contracts'', []),
        (py ''Technology & Innovation'', []),
        (py ''Heavy Equipment'', []),
        (py ''Other News'', [])]"
    by (simp add: 1 2 bucket_labels_def initial_categories_def) (simp add: py_def)
  have 5: "spec_category ?v = py ''Other News''"
    by (simp add: spec_category_def spec_rule_sets_def py_def sublist_code)
  have 6: "spec_category (lower ul ?v) = py ''Energy & Oil''"
    unfolding lv by (simp add: spec_category_def spec_rule_sets_def py_def sublist_code)
  have 7: "categorize_headlines ul [\<lparr>title = ?v, source = s, url = u\<rparr>] =
       [(py ''Energy & Oil'', [\<lparr>title = ?v, source = s, url = u\<rparr>]),
        (py ''Construction & Infrastructure'', []),
        (py ''Tenders & Contracts'', []),
        (py ''Technology & Innovation'', []),
        (py ''Heavy Equipment'', []),
        (py ''Other News'', [])]"
    by (simp add: 1 6 bucket_labels_def initial_categories_def) (simp add: py_def)
  from 1 0 lo 2 3 4 5 lv 7 show ?thesis by (intro conjI)
qed

theorem categorize_first_match_witness:
  "list_all ascii (py ''BEML unveils AI crane'')
   \<and> lower (\<lambda>s. s) (py ''BEML unveils AI crane'') = py ''beml unveils ai crane''
   \<and> categorize_headlines (\<lambda>s. s) [h_upper, h_crane] =
       [(py ''Energy & Oil'', [h_upper]),
        (py ''Construction & Infrastructure'', []),
        (py ''Tenders & Contracts'', []),
        (py ''Technology & Innovation'', []),
        (py ''Heavy Equipment'', [h_crane]),
        (py ''Other News'', [])]"
proof -
  have a: "list_all ascii (py ''BEML unveils AI crane'')"
    by (simp add: py_def ascii_def)
  from categorize_first_match[of "\<lambda>s. s" "[h_upper, h_crane]" "py ''BEML unveils AI crane''"]
  have l: "list_all ascii (py ''BEML unveils AI crane'') \<longrightarrow>
        lower (\<lambda>s. s) (py ''BEML unveils AI crane'') = map ascii_lower (py ''BEML unveils AI crane'')"
    and c: "categorize_headlines (\<lambda>s. s) [h_upper, h_crane] =
     map (\<lambda>label. (label, filter (\<lambda>h. spec_category (lower (\<lambda>s. s) (title h)) = label)
       [h_upper, h_crane])) bucket_labels"
    by blast+
  have l': "lower (\<lambda>s. s) (py ''BEML unveils AI crane'') = py ''beml unveils ai crane''"
    using l a by (simp add: py_def ascii_lower_def)
  have "spec_category (lower (\<lambda>s. s) (title h_upper)) = py ''Energy & Oil''"
    "spec_category (lower (\<lambda>s. s) (title h_crane)) = py ''Heavy Equipment''"
    using label_h_crane[of "\<lambda>s. s"] unfolding lower_h_upper branch_label_spec
    by (simp_all add: spec_category_def spec_rule_sets_def py_def sublist_code)
  then have c': "categorize_headlines (\<lambda>s. s) [h_upper, h_crane] =
       [(py ''Energy & Oil'', [h_upper]),
        (py ''Construction & Infrastructure'', []),
        (py ''Tenders & Contracts'', []),
        (py ''Technology & Innovation'', []),
        (py ''Heavy Equipment'', [h_crane]),
        (py ''Other News'', [])]"
    unfolding c by (simp add: bucket_labels_def initial_categories_def) (simp add: py_def)
  from a l' c' show ?thesis by (intro conjI)
qed

text \<open>
  C2. The buckets partition the input: taken together they hold every input headline as
  often as the input does (none dropped, none duplicated), the bucket lengths add up to
  the length of the input, the labels are distinct, and every input headline is in the
  bucket of exactly one label.
\<close>

theorem categorize_partition:
  "mset (concat (map snd (categorize_headlines ul hs))) = mset hs
   \<and> sum_list (map (length \<circ> snd) (categorize_headlines ul hs)) = length hs
   \<and> distinct (map fst (categorize_headlines ul hs))
   \<and> (\<forall>h \<in> set hs. \<exists>!label. \<exists>b. (label, b) \<in> set (categorize_headlines ul hs) \<and> h \<in> set b)"
proof -
  let ?f = "\<lambda>h. branch_label (lower ul (title h))"
  let ?cats = "categorize_headlines ul hs"
  have snd_cats: "map snd ?cats = map (\<lambda>k. filter (\<lambda>h. ?f h = k) hs) bucket_labels"
    by (simp add: categorize_headlines_buckets comp_def)
  have 1: "mset (concat (map snd ?cats)) = mset hs"
    by (simp only: snd_cats mset_buckets[OF distinct_bucket_labels])
       (simp add: branch_label_in)
  have "length (concat (map snd ?cats)) = length hs"
    using 1 by (metis size_mset)
  then have 2: "sum_list (map (length \<circ> snd) ?cats) = length hs"
    by (simp add: length_concat)
  have 3: "distinct (map fst ?cats)"
    by (simp add: categorize_headlines_buckets comp_def distinct_bucket_labels)
  have 4: "\<exists>!label. \<exists>b. (label, b) \<in> set ?cats \<and> h \<in> set b" if "h \<in> set hs" for h
  proof (rule ex1I[of _ "?f h"])
    show "\<exists>b. (?f h, b) \<in> set ?cats \<and> h \<in> set b"
      using that branch_label_in[of "lower ul (title h)"]
      by (auto simp: categorize_headlines_buckets)
  next
    fix label
    assume "\<exists>b. (label, b) \<in> set ?cats \<and> h \<in> set b"
    then show "label = ?f h" by (auto simp: categorize_headlines_buckets)
  qed
  show ?thesis using 1 2 3 4 by blast
qed

theorem categorize_partition_witness:
  "h_ongc \<in> set [h_ongc, h_crane]
   \<and> (\<exists>!label. \<exists>b. (label, b) \<in> set (categorize_headlines (\<lambda>s. s) [h_ongc, h_crane])
         \<and> h_ongc \<in> set b)
   \<and> sum_list (map (length \<circ> snd) (categorize_headlines (\<lambda>s. s) [h_ongc, h_crane])) = 2"
proof -
  have m: "h_ongc \<in> set [h_ongc, h_crane]" by simp
  from categorize_partition[of "\<lambda>s. s" "[h_ongc, h_crane]"] m show ?thesis by simp
qed

text \<open>
  C10. Every bucket is a subsequence of the input list: its headlines stand in the same
  relative order as in the input.
\<close>

theorem categorize_keeps_order:
  "\<forall>(label, b) \<in> set (categorize_headlines ul hs). subseq b hs"
  by (auto simp: categorize_headlines_buckets)

theorem categorize_keeps_order_witness:
  "(py ''Heavy Equipment'', [h_crane]) \<in> set (categorize_headlines (\<lambda>s. s) [h_ongc, h_crane])
   \<and> subseq [h_crane] [h_ongc, h_crane]"
proof -
  have m: "(py ''Heavy Equipment'', [h_crane]) \<in> set (categorize_headlines (\<lambda>s. s) [h_ongc, h_crane])"
    by (simp add: categorize_example)
  from categorize_keeps_order[of "\<lambda>s. s" "[h_ongc, h_crane]"] m show ?thesis by blast
qed

section \<open>Properties of the digest\<close>

lemma fold_append_concat: "fold (\<lambda>e d. d @ f e) xs a = a @ concat (map f xs)"
  by (induction xs arbitrary: a) auto

lemma fallback_digest_shape:
  "create_fallback_digest so now cats =
     digest_header now @ concat (map (digest_section so) cats)
     @ (if list_ex (\<lambda>(category, items). items \<noteq> []) cats then [] else no_news_line @ [10, 10])
     @ signature_line"
  by (simp add: create_fallback_digest_def fold_append_concat Let_def)

lemma signature_line_text:
  "signature_line = [128640, 32] @ py ''Stay ahead with CD Jindal AI Assistant''"
  by (simp add: signature_line_def py_def)

lemma sublist_signature:
  "sublist (py ''Stay ahead with CD Jindal AI Assistant'') (create_fallback_digest so now cats)"
proof -
  obtain x where "create_fallback_digest so now cats = x @ signature_line"
    using fallback_digest_shape[of so now cats] by (metis append.assoc)
  then have "create_fallback_digest so now cats =
      (x @ [128640, 32]) @ py ''Stay ahead with CD Jindal AI Assistant'' @ []"
    by (simp add: signature_line_text)
  then show ?thesis unfolding sublist_def by blast
qed

lemma example_header:
  "digest_header example_now =
     py ''<b>Good Morning Mr. Keshav Agarwal! '' @ [128200] @ py ''</b>'' @ [10]
     @ py ''04 November 2026'' @ [10, 10]
     @ py ''<b>Daily Infrastructure Industry Digest</b>'' @ [10, 10]"
  by (simp add: digest_header_def greeting_def date_only_def example_now_def str_nat.simps py_def)

text \<open>
  C4, as the code has it. When the backend call raises an \<open>Exception\<close> and the handler
  has printed its line, \<open>generate_digest_with_gemini\<close> returns the fallback digest: the
  failure does not reach the caller, the text is not empty, it contains "Stay ahead with
  CD Jindal AI Assistant" and ends with the signature line. An exception outside
  \<open>Exception\<close> is not caught and reaches the caller, and an answer of the backend is
  returned as it is.
\<close>

theorem fallback_on_backend_exception:
  "(backend (prompt now cats) = Inl (Exc cls msg) \<and> print_line (py ''Gemini failed: '' @ msg) = None
      \<longrightarrow> generate_digest_with_gemini backend print_line so now cats
            = Inr (create_fallback_digest so now cats)
          \<and> create_fallback_digest so now cats \<noteq> []
          \<and> sublist (py ''Stay ahead with CD Jindal AI Assistant'')
               (create_fallback_digest so now cats)
          \<and> suffix signature_line (create_fallback_digest so now cats))
   \<and> (backend (prompt now cats) = Inl (BaseExc cls msg)
      \<longrightarrow> generate_digest_with_gemini backend print_line so now cats = Inl (BaseExc cls msg))
   \<and> (backend (prompt now cats) = Inr answer
      \<longrightarrow> generate_digest_with_gemini backend print_line so now cats = Inr answer)"
proof -
  have 2: "create_fallback_digest so now cats \<noteq> []"
    by (simp add: fallback_digest_shape signature_line_def)
  have 3: "suffix signature_line (create_fallback_digest so now cats)"
    unfolding fallback_digest_shape suffix_def by (metis append.assoc)
  show ?thesis
    using 2 3 sublist_signature[of so now cats]
    by (simp add: generate_digest_with_gemini_def)
qed

theorem fallback_on_backend_exception_witness:
  "failing_backend (prompt example_now (categorize_headlines (\<lambda>s. s) [h_ongc, h_crane]))
     = Inl (Exc (py ''ResourceExhausted'') (py ''429 quota exceeded''))
   \<and> generate_digest_with_gemini failing_backend (\<lambda>line. None) (\<lambda>xs. xs) example_now
         (categorize_headlines (\<lambda>s. s) [h_ongc, h_crane])
       = Inr (create_fallback_digest (\<lambda>xs. xs) example_now
               (categorize_headlines (\<lambda>s. s) [h_ongc, h_crane]))
   \<and> sublist (py ''Stay ahead with CD Jindal AI Assistant'')
        (create_fallback_digest (\<lambda>xs. xs) example_now
           (categorize_headlines (\<lambda>s. s) [h_ongc, h_crane]))
   \<and> generate_digest_with_gemini answering_backend (\<lambda>line. None) (\<lambda>xs. xs) example_now
         (categorize_headlines (\<lambda>s. s) [h_ongc, h_crane])
       = Inr (py ''<b>Energy</b> ONGC signs a gas pipeline tender.'')
   \<and> interrupted_backend (prompt example_now (categorize_headlines (\<lambda>s. s) [h_ongc, h_crane]))
     = Inl (BaseExc (py ''KeyboardInterrupt'') [])
   \<and> generate_digest_with_gemini interrupted_backend (\<lambda>line. None) (\<lambda>xs. xs) example_now
         (categorize_headlines (\<lambda>s. s) [h_ongc, h_crane])
       = Inl (BaseExc (py ''KeyboardInterrupt'') [])"
proof -
  let ?cats = "categorize_headlines (\<lambda>s. s) [h_ongc, h_crane]"
  have h: "failing_backend (prompt example_now ?cats)
     = Inl (Exc (py ''ResourceExhausted'') (py ''429 quota exceeded''))"
    by (simp add: failing_backend_def)
  have p: "(\<lambda>line. None :: raised option) (py ''Gemini failed: '' @ py ''429 quota exceeded'') = None"
    by simp
  have a: "answering_backend (prompt example_now ?cats)
     = Inr (py ''<b>Energy</b> ONGC signs a gas pipeline tender.'')"
    by (simp add: answering_backend_def)
  from fallback_on_backend_exception[where backend = failing_backend
      and print_line = "\<lambda>line. None" and so = "\<lambda>xs. xs" and now = example_now and cats = ?cats
      and cls = "py ''ResourceExhausted''" and msg = "py ''429 quota exceeded''"] h p
  have 1: "generate_digest_with_gemini failing_backend (\<lambda>line. None) (\<lambda>xs. xs) example_now ?cats
       = Inr (create_fallback_digest (\<lambda>xs. xs) example_now ?cats)
     \<and> sublist (py ''Stay ahead with CD Jindal AI Assistant'')
        (create_fallback_digest (\<lambda>xs. xs) example_now ?cats)"
    by blast
  from fallback_on_backend_exception[where backend = answering_backend
      and print_line = "\<lambda>line. None" and so = "\<lambda>xs. xs" and now = example_now and cats = ?cats
      and answer = "py ''<b>Energy</b> ONGC signs a gas pipeline tender.''"] a
  have 2: "generate_digest_with_gemini answering_backend (\<lambda>line. None) (\<lambda>xs. xs) example_now ?cats
       = Inr (py ''<b>Energy</b> ONGC signs a gas pipeline tender.'')"
    by blast
  have k: "interrupted_backend (prompt example_now ?cats)
     = Inl (BaseExc (py ''KeyboardInterrupt'') [])"
    by (simp add: interrupted_backend_def)
  from fallback_on_backend_exception[where backend = interrupted_backend
      and print_line = "\<lambda>line. None" and so = "\<lambda>xs. xs" and now = example_now and cats = ?cats
      and cls = "py ''KeyboardInterrupt''" and msg = "[]"] k
  have 3: "generate_digest_with_gemini interrupted_backend (\<lambda>line. None) (\<lambda>xs. xs) example_now ?cats
       = Inl (BaseExc (py ''KeyboardInterrupt'') [])"
    by blast
  from h 1 2 k 3 show ?thesis by blast
qed

text \<open>
  C4 as stated fails: the composer does not catch every failure of the backend call. A
  \<open>KeyboardInterrupt\<close> raised during the call is no \<open>Exception\<close>; it passes the handler and
  reaches the caller, and no digest is produced.
\<close>

theorem keyboard_interrupt_reaches_caller:
  "generate_digest_with_gemini interrupted_backend (\<lambda>line. None) (\<lambda>xs. xs) example_now
     (categorize_headlines (\<lambda>s. s) [h_ongc, h_crane])
   = Inl (BaseExc (py ''KeyboardInterrupt'') [])"
  by (simp add: generate_digest_with_gemini_def interrupted_backend_def)

lemma str_nat_digits: "c \<in> set (str_nat n) \<Longrightarrow> 48 \<le> c \<and> c \<le> 57"
proof (induction n rule: str_nat.induct)
  case (1 n)
  show ?case
  proof (cases "n < 10")
    case True
    then show ?thesis using 1(2) by (subst (asm) str_nat.simps) auto
  next
    case False
    have "n mod 10 < 10" by simp
    then show ?thesis using 1 False by (subst (asm) (2) str_nat.simps) (auto split: if_splits)
  qed
qed

lemma no_colon_month: "58 \<notin> set (month_name m)"
  by (cases m) (simp_all add: py_def)

lemma no_colon_date: "58 \<notin> set (date_only now)"
  using str_nat_digits[of 58] no_colon_month by (auto simp: date_only_def)

lemma no_colon_header: "58 \<notin> set (digest_header now)"
  using no_colon_date[of now] by (simp add: digest_header_def greeting_def py_def)

lemma no_colon_tail: "58 \<notin> set (no_news_line @ [10, 10] @ signature_line)"
  by (simp add: no_news_line_def signature_line_def py_def)

lemma empty_sections:
  "list_all (\<lambda>(category, items). items = []) cats \<Longrightarrow>
   concat (map (digest_section so) cats) = [] \<and> \<not> list_ex (\<lambda>(category, items). items \<noteq> []) cats"
  by (induction cats) (auto simp: digest_section_def)

text \<open>
  C7. When every bucket is empty, the fallback digest is the header, the line "No
  infrastructure news today." and the signature line: it contains both lines, and no
  category heading (the text \<open><b>category:</b>\<close>) of any category at all occurs in it.
\<close>

theorem fallback_digest_no_news:
  assumes "list_all (\<lambda>(category, items). items = []) cats"
  shows "create_fallback_digest so now cats =
           digest_header now @ no_news_line @ [10, 10] @ signature_line
         \<and> sublist no_news_line (create_fallback_digest so now cats)
         \<and> sublist signature_line (create_fallback_digest so now cats)
         \<and> \<not> sublist (category_heading category) (create_fallback_digest so now cats)"
proof -
  let ?d = "create_fallback_digest so now cats"
  have 1: "?d = digest_header now @ no_news_line @ [10, 10] @ signature_line"
    using empty_sections[OF assms, of so] by (simp add: fallback_digest_shape)
  have 2: "sublist no_news_line ?d"
    unfolding 1 sublist_def by blast
  have "?d = (digest_header now @ no_news_line @ [10, 10]) @ signature_line @ []"
    by (simp add: 1)
  then have 3: "sublist signature_line ?d"
    unfolding sublist_def by blast
  have "58 \<notin> set ?d"
    unfolding 1 using no_colon_header[of now] no_colon_tail by simp
  moreover have "58 \<in> set (category_heading category)"
    by (simp add: category_heading_def py_def)
  ultimately have 4: "\<not> sublist (category_heading category) ?d"
    using set_mono_sublist by blast
  show ?thesis using 1 2 3 4 by blast
qed

theorem fallback_digest_no_news_witness:
  "list_all (\<lambda>(category, items). items = []) (categorize_headlines (\<lambda>s. s) [])
   \<and> create_fallback_digest (\<lambda>xs. xs) example_now (categorize_headlines (\<lambda>s. s) []) =
       py ''<b>Good Morning Mr. Keshav Agarwal! '' @ [128200] @ py ''</b>'' @ [10]
       @ py ''04 November 2026'' @ [10, 10]
       @ py ''<b>Daily Infrastructure Industry Digest</b>'' @ [10, 10]
       @ py ''No infrastructure news today.'' @ [10, 10]
       @ [128640] @ py '' Stay ahead with CD Jindal AI Assistant''"
proof -
  have h: "list_all (\<lambda>(category, items). items = []) (categorize_headlines (\<lambda>s. s) [])"
    by (simp add: categorize_headlines_def initial_categories_def)
  from fallback_digest_no_news[OF h, of "\<lambda>xs. xs" example_now] h show ?thesis
    by (simp add: example_header no_news_line_def signature_line_def)
qed

lemma distinct_singleton: "distinct ys \<Longrightarrow> set ys = {s} \<Longrightarrow> ys = [s]"
proof (cases ys)
  case Nil
  assume "set ys = {s}"
  then show ?thesis using Nil by simp
next
  case (Cons a r)
  assume d: "distinct ys" and e: "set ys = {s}"
  then have "a = s" using Cons by auto
  moreover have "set r \<subseteq> {s}" using e Cons by auto
  then have "r = []" using d Cons \<open>a = s\<close> by (cases r) auto
  ultimately show ?thesis using Cons by simp
qed

lemma first_occurrences_props:
  "distinct (first_occurrences xs) \<and> set (first_occurrences xs) = set xs"
  by (simp add: first_occurrences_def)

lemma permuting_props:
  assumes "permuting so" "distinct xs"
  shows "distinct (so xs) \<and> set (so xs) = set xs"
proof -
  have m: "mset (so xs) = mset xs" using assms by (simp add: permuting_def)
  then have "set (so xs) = set xs" by (rule mset_eq_setD)
  moreover have "distinct (so xs)" using m assms(2) by (metis mset_eq_imp_distinct_iff)
  ultimately show ?thesis by simp
qed

lemma sources_of_props:
  assumes "permuting so"
  shows "distinct (sources_of so items) \<and> set (sources_of so items) = source ` set items"
  using permuting_props[OF assms, of "first_occurrences (map source items)"]
    first_occurrences_props[of "map source items"]
  by (simp add: sources_of_def)

lemma sources_of_single:
  assumes p: "permuting so" and ne: "items \<noteq> []"
    and same: "\<forall>h\<in>set items. \<forall>h'\<in>set items. source h = source h'"
  shows "sources_of so items = [source (hd items)]"
proof -
  have hd_in: "hd items \<in> set items" using ne by (rule hd_in_set)
  have img: "source ` set items = {source (hd items)}"
  proof (rule equalityI; rule subsetI)
    fix x
    assume "x \<in> source ` set items"
    then obtain h where h: "h \<in> set items" and x: "x = source h" by (rule imageE)
    from same h have "\<forall>h'\<in>set items. source h = source h'" by (rule bspec)
    then have "source h = source (hd items)" using hd_in by (rule bspec)
    then show "x \<in> {source (hd items)}" by (simp only: x singletonI)
  next
    fix x
    assume "x \<in> {source (hd items)}"
    then have "x = source (hd items)" by (rule singletonD)
    then show "x \<in> source ` set items" using hd_in by (rule image_eqI)
  qed
  have sp: "distinct (sources_of so items) \<and> set (sources_of so items) = source ` set items"
    by (rule sources_of_props[OF p])
  from sp have d: "distinct (sources_of so items)" by (rule conjunct1)
  from sp have "set (sources_of so items) = source ` set items" by (rule conjunct2)
  then have s: "set (sources_of so items) = {source (hd items)}" by (simp only: img)
  from d s show ?thesis by (rule distinct_singleton)
qed

lemma digest_section_single:
  assumes p1: "permuting so1" and p2: "permuting so2"
    and same: "\<forall>h\<in>set items. \<forall>h'\<in>set items. source h = source h'"
  shows "digest_section so1 (category, items) = digest_section so2 (category, items)"
proof (cases "items = []")
  case True
  then show ?thesis by (simp add: digest_section_def)
next
  case False
  then show ?thesis
    using sources_of_single[OF p1 False same] sources_of_single[OF p2 False same]
    by (simp add: digest_section_def)
qed

lemma permuting_id: "permuting (\<lambda>xs. xs)" by (simp add: permuting_def)

lemma permuting_rev: "permuting rev" by (simp add: permuting_def)

lemma label_h_oil: "branch_label (lower ul (title h_oil)) = py ''Energy & Oil''"
  by (simp add: h_oil_def lower_def ascii_def ascii_lower_def branch_label_def any_in_def
      energy_def py_def sublist_code)

lemma categorize_two_sources:
  "categorize_headlines ul [h_ongc, h_oil] =
     [(py ''Energy & Oil'', [h_ongc, h_oil]),
      (py ''Construction & Infrastructure'', []),
      (py ''Tenders & Contracts'', []),
      (py ''Technology & Innovation'', []),
      (py ''Heavy Equipment'', []),
      (py ''Other News'', [])]"
  by (simp add: categorize_headlines_buckets label_h_ongc label_h_oil bucket_labels_def
      initial_categories_def) (simp add: py_def)

lemma two_sources_sections:
  "concat (map (digest_section so) (categorize_headlines ul [h_ongc, h_oil])) =
     py ''<b>Energy & Oil:</b>'' @ [10] @ py ''2 key updates from ''
     @ join (py '', '') (take 2 (so [py ''ET Infra'', py ''ONGC''])) @ py ''.'' @ [10, 10]"
proof -
  have "first_occurrences [py ''ET Infra'', py ''ONGC''] = [py ''ET Infra'', py ''ONGC'']"
    by (simp add: first_occurrences_def py_def)
  then have "digest_section so (py ''Energy & Oil'', [h_ongc, h_oil]) =
     py ''<b>Energy & Oil:</b>'' @ [10] @ py ''2 key updates from ''
     @ join (py '', '') (take 2 (so [py ''ET Infra'', py ''ONGC''])) @ py ''.'' @ [10, 10]"
    by (simp add: digest_section_def sources_of_def h_ongc_def h_oil_def
      category_heading_def str_nat.simps py_def)
  moreover have "digest_section so (k, []) = []" for k
    by (simp add: digest_section_def)
  ultimately show ?thesis
    unfolding categorize_two_sources by simp
qed


lemma example_single_sources:
  "\<forall>(category, items)\<in>set (categorize_headlines (\<lambda>s. s) [h_ongc, h_crane]).
      \<forall>h\<in>set items. \<forall>h'\<in>set items. source h = source h'"
  unfolding categorize_example by simp

lemma shown_sources:
  assumes p: "permuting so"
  shows "distinct (take 2 (sources_of so items))
         \<and> length (take 2 (sources_of so items)) = min 2 (card (source ` set items))
         \<and> set (take 2 (sources_of so items)) \<subseteq> source ` set items"
proof -
  have sp: "distinct (sources_of so items) \<and> set (sources_of so items) = source ` set items"
    by (rule sources_of_props[OF p])
  then have a: "distinct (take 2 (sources_of so items))" by (simp only: distinct_take)
  from sp have d: "distinct (sources_of so items)"
    and e: "set (sources_of so items) = source ` set items" by (rule conjunct1, rule conjunct2)
  have "card (set (sources_of so items)) = length (sources_of so items)"
    using d by (rule distinct_card)
  then have "length (sources_of so items) = card (source ` set items)"
    by (simp only: e)
  then have b: "length (take 2 (sources_of so items)) = min 2 (card (source ` set items))"
    by (simp add: min.commute)
  have "set (take 2 (sources_of so items)) \<subseteq> set (sources_of so items)"
    by (rule set_take_subset)
  then have c: "set (take 2 (sources_of so items)) \<subseteq> source ` set items"
    using sp by (simp only:)
  from a b c show ?thesis by (intro conjI)
qed

lemma label_h_upper: "branch_label (lower ul (title h_upper)) = py ''Energy & Oil''"
  unfolding lower_h_upper by (simp add: branch_label_def any_in_def energy_def py_def sublist_code)

lemma categorize_three_sources:
  "categorize_headlines ul [h_ongc, h_oil, h_upper] =
     [(py ''Energy & Oil'', [h_ongc, h_oil, h_upper]),
      (py ''Construction & Infrastructure'', []),
      (py ''Tenders & Contracts'', []),
      (py ''Technology & Innovation'', []),
      (py ''Heavy Equipment'', []),
      (py ''Other News'', [])]"
  by (simp add: categorize_headlines_buckets label_h_ongc label_h_oil label_h_upper
      bucket_labels_def initial_categories_def) (simp add: py_def)

lemma three_sources:
  "card (source ` set [h_ongc, h_oil, h_upper]) = 3"
  by (simp add: h_ongc_def h_oil_def h_upper_def py_def)

text \<open>
  C9, as the code has it. The digest is fixed by the categorized input, the time and
  the order in which the set of a bucket's source labels is read. Under any such
  order it is the header, one section for every non-empty bucket, the no-news line when
  there is none, and the signature line; the section of a bucket is its heading and
  the line with the count of its headlines and the labels shown, which are distinct
  source labels of the bucket, two of them when the bucket has two or more sources and
  the only one otherwise. For any two orders the two digests are identical when no
  bucket holds headlines of two different sources.
\<close>

theorem fallback_digest_single_source:
  assumes p1: "permuting so1" and p2: "permuting so2"
  shows "((\<forall>(category, items)\<in>set cats. \<forall>h\<in>set items. \<forall>h'\<in>set items. source h = source h')
            \<longrightarrow> create_fallback_digest so1 now cats = create_fallback_digest so2 now cats)
         \<and> create_fallback_digest so1 now cats =
             digest_header now @ concat (map (digest_section so1) cats)
             @ (if list_ex (\<lambda>(category, items). items \<noteq> []) cats then []
                else no_news_line @ [10, 10])
             @ signature_line
         \<and> (\<forall>(category, items)\<in>set cats.
               (items \<noteq> [] \<longrightarrow>
                  digest_section so1 (category, items) =
                    category_heading category @ [10] @ str_nat (length items)
                    @ py '' key updates from ''
                    @ join (py '', '') (take 2 (sources_of so1 items)) @ py ''.'' @ [10, 10])
               \<and> (items = [] \<longrightarrow> digest_section so1 (category, items) = [])
               \<and> distinct (take 2 (sources_of so1 items))
               \<and> length (take 2 (sources_of so1 items)) = min 2 (card (source ` set items))
               \<and> set (take 2 (sources_of so1 items)) \<subseteq> source ` set items)"
proof -
  have 1: "create_fallback_digest so1 now cats = create_fallback_digest so2 now cats"
    if same: "\<forall>(category, items)\<in>set cats. \<forall>h\<in>set items. \<forall>h'\<in>set items. source h = source h'"
  proof -
    have eq: "digest_section so1 e = digest_section so2 e" if e: "e \<in> set cats" for e
    proof -
      obtain category items where Pair: "e = (category, items)" by (rule prod.exhaust)
      from same e have "case e of (category, items) \<Rightarrow>
          \<forall>h\<in>set items. \<forall>h'\<in>set items. source h = source h'" by (rule bspec)
      then have "\<forall>h\<in>set items. \<forall>h'\<in>set items. source h = source h'"
        by (simp only: Pair prod.case)
      then show ?thesis unfolding Pair by (rule digest_section_single[OF p1 p2])
    qed
    have "map (digest_section so1) cats = map (digest_section so2) cats"
      by (rule map_cong[OF refl eq])
    then show ?thesis by (simp only: fallback_digest_shape)
  qed
  have 2: "(items \<noteq> [] \<longrightarrow>
                  digest_section so1 (category, items) =
                    category_heading category @ [10] @ str_nat (length items)
                    @ py '' key updates from ''
                    @ join (py '', '') (take 2 (sources_of so1 items)) @ py ''.'' @ [10, 10])
               \<and> (items = [] \<longrightarrow> digest_section so1 (category, items) = [])
               \<and> distinct (take 2 (sources_of so1 items))
               \<and> length (take 2 (sources_of so1 items)) = min 2 (card (source ` set items))
               \<and> set (take 2 (sources_of so1 items)) \<subseteq> source ` set items" for category items
    using shown_sources[OF p1, of items] by (simp add: digest_section_def)
  have 3: "\<forall>(category, items)\<in>set cats.
               (items \<noteq> [] \<longrightarrow>
                  digest_section so1 (category, items) =
                    category_heading category @ [10] @ str_nat (length items)
                    @ py '' key updates from ''
                    @ join (py '', '') (take 2 (sources_of so1 items)) @ py ''.'' @ [10, 10])
               \<and> (items = [] \<longrightarrow> digest_section so1 (category, items) = [])
               \<and> distinct (take 2 (sources_of so1 items))
               \<and> length (take 2 (sources_of so1 items)) = min 2 (card (source ` set items))
               \<and> set (take 2 (sources_of so1 items)) \<subseteq> source ` set items"
  proof (rule ballI)
    fix e :: "pystr \<times> headline list"
    obtain category items where Pair: "e = (category, items)" by (rule prod.exhaust)
    show "case e of (category, items) \<Rightarrow>
               (items \<noteq> [] \<longrightarrow>
                  digest_section so1 (category, items) =
                    category_heading category @ [10] @ str_nat (length items)
                    @ py '' key updates from ''
                    @ join (py '', '') (take 2 (sources_of so1 items)) @ py ''.'' @ [10, 10])
               \<and> (items = [] \<longrightarrow> digest_section so1 (category, items) = [])
               \<and> distinct (take 2 (sources_of so1 items))
               \<and> length (take 2 (sources_of so1 items)) = min 2 (card (source ` set items))
               \<and> set (take 2 (sources_of so1 items)) \<subseteq> source ` set items"
      unfolding Pair prod.case by (rule 2)
  qed
  from 1 have imp: "(\<forall>(category, items)\<in>set cats. \<forall>h\<in>set items. \<forall>h'\<in>set items. source h = source h')
            \<longrightarrow> create_fallback_digest so1 now cats = create_fallback_digest so2 now cats"
    by (rule impI)
  from imp fallback_digest_shape[of so1 now cats] 3 show ?thesis by (intro conjI)
qed

theorem fallback_digest_single_source_witness:
  "permuting (\<lambda>xs. xs) \<and> permuting rev
   \<and> create_fallback_digest (\<lambda>xs. xs) example_now (categorize_headlines (\<lambda>s. s) [h_ongc, h_crane])
     = create_fallback_digest rev example_now (categorize_headlines (\<lambda>s. s) [h_ongc, h_crane])
   \<and> (py ''Energy & Oil'', [h_ongc, h_oil, h_upper])
       \<in> set (categorize_headlines (\<lambda>s. s) [h_ongc, h_oil, h_upper])
   \<and> digest_section rev (py ''Energy & Oil'', [h_ongc, h_oil, h_upper]) =
       category_heading (py ''Energy & Oil'') @ [10] @ str_nat (length [h_ongc, h_oil, h_upper])
       @ py '' key updates from ''
       @ join (py '', '') (take 2 (sources_of rev [h_ongc, h_oil, h_upper])) @ py ''.'' @ [10, 10]
   \<and> length (take 2 (sources_of rev [h_ongc, h_oil, h_upper])) = 2"
proof -
  note t1 = fallback_digest_single_source[OF permuting_id permuting_rev,
      of "categorize_headlines (\<lambda>s. s) [h_ongc, h_crane]" example_now]
  from t1 example_single_sources
  have a: "create_fallback_digest (\<lambda>xs. xs) example_now (categorize_headlines (\<lambda>s. s) [h_ongc, h_crane])
     = create_fallback_digest rev example_now (categorize_headlines (\<lambda>s. s) [h_ongc, h_crane])"
    by blast
  have m: "(py ''Energy & Oil'', [h_ongc, h_oil, h_upper])
       \<in> set (categorize_headlines (\<lambda>s. s) [h_ongc, h_oil, h_upper])"
    by (simp add: categorize_three_sources)
  note t2 = fallback_digest_single_source[OF permuting_rev permuting_id,
      of "categorize_headlines (\<lambda>s. s) [h_ongc, h_oil, h_upper]" example_now]
  from t2 have "\<forall>(category, items)\<in>set (categorize_headlines (\<lambda>s. s) [h_ongc, h_oil, h_upper]).
               (items \<noteq> [] \<longrightarrow>
                  digest_section rev (category, items) =
                    category_heading category @ [10] @ str_nat (length items)
                    @ py '' key updates from ''
                    @ join (py '', '') (take 2 (sources_of rev items)) @ py ''.'' @ [10, 10])
               \<and> (items = [] \<longrightarrow> digest_section rev (category, items) = [])
               \<and> distinct (take 2 (sources_of rev items))
               \<and> length (take 2 (sources_of rev items)) = min 2 (card (source ` set items))
               \<and> set (take 2 (sources_of rev items)) \<subseteq> source ` set items"
    by (elim conjE)
  from this m have "case (py ''Energy & Oil'', [h_ongc, h_oil, h_upper]) of (category, items) \<Rightarrow>
               (items \<noteq> [] \<longrightarrow>
                  digest_section rev (category, items) =
                    category_heading category @ [10] @ str_nat (length items)
                    @ py '' key updates from ''
                    @ join (py '', '') (take 2 (sources_of rev items)) @ py ''.'' @ [10, 10])
               \<and> (items = [] \<longrightarrow> digest_section rev (category, items) = [])
               \<and> distinct (take 2 (sources_of rev items))
               \<and> length (take 2 (sources_of rev items)) = min 2 (card (source ` set items))
               \<and> set (take 2 (sources_of rev items)) \<subseteq> source ` set items"
    by (rule bspec)
  then have b: "digest_section rev (py ''Energy & Oil'', [h_ongc, h_oil, h_upper]) =
       category_heading (py ''Energy & Oil'') @ [10] @ str_nat (length [h_ongc, h_oil, h_upper])
       @ py '' key updates from ''
       @ join (py '', '') (take 2 (sources_of rev [h_ongc, h_oil, h_upper])) @ py ''.'' @ [10, 10]"
    and c: "length (take 2 (sources_of rev [h_ongc, h_oil, h_upper]))
        = min 2 (card (source ` set [h_ongc, h_oil, h_upper]))"
    by (simp_all only: prod.case list.distinct simp_thms)
  from c have c': "length (take 2 (sources_of rev [h_ongc, h_oil, h_upper])) = 2"
    by (simp only: three_sources min.idem numeral_le_iff min_def) simp
  from permuting_id permuting_rev a m b c' show ?thesis by (intro conjI)
qed

text \<open>
  C9 as stated fails. A bucket with one headline from ET Infra and one from ONGC gives
  "2 key updates from ET Infra, ONGC." under one order of the set and "2 key updates
  from ONGC, ET Infra." under the other: the input and the time are the same, the two
  digests differ.
\<close>

theorem fallback_digest_depends_on_set_order:
  "create_fallback_digest (\<lambda>xs. xs) example_now (categorize_headlines (\<lambda>s. s) [h_ongc, h_oil])
   \<noteq> create_fallback_digest rev example_now (categorize_headlines (\<lambda>s. s) [h_ongc, h_oil])"
  by (simp add: fallback_digest_shape two_sources_sections) (simp add: py_def)

section \<open>Properties of send_to_telegram\<close>

text \<open>
  A replacement distributes over a concatenation when no occurrence of \<open>old\<close> lies
  across the seam.
\<close>

lemma replace_Nil: "old \<noteq> [] \<Longrightarrow> replace old new [] = []"
  by simp

lemma replace_append:
  assumes ne: "old \<noteq> []"
    and ns: "\<And>u v. u \<noteq> [] \<Longrightarrow> v \<noteq> [] \<Longrightarrow> old = u @ v \<Longrightarrow> suffix u xs \<Longrightarrow> prefix v ys \<Longrightarrow> False"
  shows "replace old new (xs @ ys) = replace old new xs @ replace old new ys"
  using ns
proof (induction "length xs" arbitrary: xs rule: less_induct)
  case less
  show ?case
  proof (cases xs)
    case Nil
    then show ?thesis using ne by simp
  next
    case (Cons c cs)
    show ?thesis
    proof (cases "prefix old (xs @ ys)")
      case True
      have px: "prefix old xs"
      proof (rule ccontr)
        assume np: "\<not> prefix old xs"
        from True obtain us where us: "old = xs @ us" "prefix us ys"
          using np by (auto simp: prefix_append)
        have "us \<noteq> []" using us(1) np by auto
        moreover have "xs \<noteq> []" using Cons by simp
        ultimately show False using less.prems[of xs us] us by simp
      qed
      then have len: "length old \<le> length xs" by (rule prefix_length_le)
      let ?r = "drop (length old) xs"
      have "length ?r < length xs" using ne Cons len by (cases old) auto
      moreover have "\<And>u v. u \<noteq> [] \<Longrightarrow> v \<noteq> [] \<Longrightarrow> old = u @ v \<Longrightarrow> suffix u ?r \<Longrightarrow> prefix v ys \<Longrightarrow> False"
      proof -
        fix u v
        assume a: "u \<noteq> []" "v \<noteq> []" "old = u @ v" "suffix u ?r" "prefix v ys"
        have "suffix ?r xs" by (rule suffix_drop)
        with a(4) have "suffix u xs" by (rule suffix_order.trans)
        with a show False using less.prems by blast
      qed
      ultimately have ih: "replace old new (?r @ ys) = replace old new ?r @ replace old new ys"
        by (rule less.hyps)
      have d: "drop (length old) (xs @ ys) = ?r @ ys" using len by simp
      have e1: "replace old new (xs @ ys) = new @ replace old new (drop (length old) (xs @ ys))"
        using True ne Cons by simp
      have e2: "replace old new xs = new @ replace old new ?r"
        using px ne Cons by simp
      show ?thesis by (simp only: e1 e2 d ih append_assoc)
    next
      case False
      then have npx: "\<not> prefix old xs" by (auto simp: prefix_append)
      have "length cs < length xs" using Cons by simp
      moreover have "\<And>u v. u \<noteq> [] \<Longrightarrow> v \<noteq> [] \<Longrightarrow> old = u @ v \<Longrightarrow> suffix u cs \<Longrightarrow> prefix v ys \<Longrightarrow> False"
      proof -
        fix u v
        assume a: "u \<noteq> []" "v \<noteq> []" "old = u @ v" "suffix u cs" "prefix v ys"
        from a(4) have "suffix u xs" unfolding Cons by (rule suffix_ConsI)
        with a show False using less.prems by blast
      qed
      ultimately have ih: "replace old new (cs @ ys) = replace old new cs @ replace old new ys"
        by (rule less.hyps)
      have "replace old new (xs @ ys) = c # replace old new (cs @ ys)"
        using False ne Cons by simp
      moreover have "replace old new xs = c # replace old new cs"
        using npx ne Cons by simp
      ultimately show ?thesis by (simp add: ih)
    qed
  qed
qed

lemma replace_split_left:
  assumes ne: "old \<noteq> []" and ys: "ys \<noteq> []" and hd: "hd ys \<notin> set (tl old)"
  shows "replace old new (xs @ ys) = replace old new xs @ replace old new ys"
proof (rule replace_append[OF ne])
  fix u v
  assume a: "u \<noteq> []" "v \<noteq> []" "old = u @ v" "suffix u xs" "prefix v ys"
  have "hd v \<in> set (tl old)" using a(1,2,3) by (cases u) auto
  moreover have "hd v = hd ys" using a(2,5) by (auto simp: prefix_def)
  ultimately show False using hd by simp
qed

lemma replace_split_right:
  assumes ne: "old \<noteq> []" and len: "2 \<le> length xs"
    and l1: "last xs \<noteq> hd old" and l2: "last (butlast xs) \<notin> set old"
  shows "replace old new (xs @ ys) = replace old new xs @ replace old new ys"
proof (rule replace_append[OF ne])
  fix u v
  assume a: "u \<noteq> []" "v \<noteq> []" "old = u @ v" "suffix u xs" "prefix v ys"
  from a(4) obtain z where z: "xs = z @ u" by (auto simp: suffix_def)
  have lu: "last u = last xs" using z a(1) by simp
  show False
  proof (cases "butlast u = []")
    case True
    then have "u = [last u]" using a(1) by (metis append_butlast_last_id append_Nil)
    then have "hd u = last xs" using lu by (metis list.sel(1))
    moreover have "hd u = hd old" using a(1,3) by simp
    ultimately show False using l1 by simp
  next
    case False
    have "butlast xs = z @ butlast u" using z a(1) by (simp add: butlast_append)
    then have "last (butlast xs) = last (butlast u)" using False by simp
    moreover have "last (butlast u) \<in> set (butlast u)" using False by simp
    then have "last (butlast u) \<in> set old" using a(3) by (auto dest: in_set_butlastD)
    ultimately show False using l2 by simp
  qed
qed

lemma replace_around:
  assumes ne: "old \<noteq> []" and len: "2 \<le> length f"
    and h: "hd f \<notin> set (tl old)"
    and l1: "last f \<noteq> hd old" and l2: "last (butlast f) \<notin> set old"
  shows "replace old new (pre @ f @ post) =
           replace old new pre @ replace old new f @ replace old new post"
proof -
  have f: "f \<noteq> []" using len by auto
  have "replace old new (pre @ (f @ post)) = replace old new pre @ replace old new (f @ post)"
    using f h by (intro replace_split_left[OF ne]) simp_all
  moreover have "replace old new (f @ post) = replace old new f @ replace old new post"
    by (rule replace_split_right[OF ne len l1 l2])
  ultimately show ?thesis by simp
qed

text \<open>
  C8, as the code has it. In any message, the fragment \<open><li>Foo</li><br>Bar\<close> becomes
  the bullet, a space, \<open>Foo\<close>, two newlines (one for \<open></li>\<close>, one for \<open><br>\<close>) and
  \<open>Bar\<close>; what stands before and after it is cleaned on its own, and the result is what
  the delivery call receives.
\<close>

theorem clean_message_list_and_break:
  "clean_message (pre @ py ''<li>Foo</li><br>Bar'' @ post) =
     clean_message pre @ [8226, 32] @ py ''Foo'' @ [10, 10] @ py ''Bar'' @ clean_message post
   \<and> send_to_telegram send_message (pre @ py ''<li>Foo</li><br>Bar'' @ post) =
     send_message
       (clean_message pre @ [8226, 32] @ py ''Foo'' @ [10, 10] @ py ''Bar'' @ clean_message post)"
proof -
  define f0 where "f0 = py ''<li>Foo</li><br>Bar''"
  define f3 where "f3 = [8226, 32] @ py ''Foo</li><br>Bar''"
  define f4 where "f4 = [8226, 32] @ py ''Foo'' @ [10] @ py ''<br>Bar''"
  define f5 where "f5 = [8226, 32] @ py ''Foo'' @ [10, 10] @ py ''Bar''"
  have s1: "replace (py ''<ul>'') [] (p @ f0 @ q) =
      replace (py ''<ul>'') [] p @ f0 @ replace (py ''<ul>'') [] q" for p q
    by (subst replace_around) (simp_all add: py_def f0_def)
  have s2: "replace (py ''</ul>'') [] (p @ f0 @ q) =
      replace (py ''</ul>'') [] p @ f0 @ replace (py ''</ul>'') [] q" for p q
    by (subst replace_around) (simp_all add: py_def f0_def)
  have s3: "replace (py ''<li>'') [8226, 32] (p @ f0 @ q) =
      replace (py ''<li>'') [8226, 32] p @ f3 @ replace (py ''<li>'') [8226, 32] q" for p q
    by (subst replace_around) (simp_all add: py_def f0_def f3_def)
  have s4: "replace (py ''</li>'') [10] (p @ f3 @ q) =
      replace (py ''</li>'') [10] p @ f4 @ replace (py ''</li>'') [10] q" for p q
    by (subst replace_around) (simp_all add: py_def f3_def f4_def)
  have s5: "replace (py ''<br>'') [10] (p @ f4 @ q) =
      replace (py ''<br>'') [10] p @ f5 @ replace (py ''<br>'') [10] q" for p q
    by (subst replace_around) (simp_all add: py_def f4_def f5_def)
  have s6: "replace (py ''<br/>'') [10] (p @ f5 @ q) =
      replace (py ''<br/>'') [10] p @ f5 @ replace (py ''<br/>'') [10] q" for p q
    by (subst replace_around) (simp_all add: py_def f5_def)
  have s7: "replace (py ''<br />'') [10] (p @ f5 @ q) =
      replace (py ''<br />'') [10] p @ f5 @ replace (py ''<br />'') [10] q" for p q
    by (subst replace_around) (simp_all add: py_def f5_def)
  have s8: "replace (py ''&nbsp;'') (py '' '') (p @ f5 @ q) =
      replace (py ''&nbsp;'') (py '' '') p @ f5 @ replace (py ''&nbsp;'') (py '' '') q" for p q
    by (subst replace_around) (simp_all add: py_def f5_def)
  have "clean_message (pre @ f0 @ post) = clean_message pre @ f5 @ clean_message post"
    unfolding clean_message_def by (simp only: s1 s2 s3 s4 s5 s6 s7 s8)
  then have 1: "clean_message (pre @ py ''<li>Foo</li><br>Bar'' @ post) =
     clean_message pre @ [8226, 32] @ py ''Foo'' @ [10, 10] @ py ''Bar'' @ clean_message post"
    by (simp add: f0_def f5_def)
  then show ?thesis by (simp only: send_to_telegram_def simp_thms)
qed

text \<open>
  C8 as stated fails: the fragment does not become the bullet, \<open>Foo\<close>, a single newline
  and \<open>Bar\<close>; there are two newlines before \<open>Bar\<close>.
\<close>

theorem clean_message_two_newlines:
  "clean_message (py ''<li>Foo</li><br>Bar'') = [8226, 32] @ py ''Foo'' @ [10, 10] @ py ''Bar''
   \<and> clean_message (py ''<li>Foo</li><br>Bar'') \<noteq> [8226, 32] @ py ''Foo'' @ [10] @ py ''Bar''"
  by (simp add: clean_message_def py_def)

end
